theory Spec2Isabelle
  imports Main "HOL-Library.Finite_Map" "HOL-Library.Multiset" "HOL-Library.Sublist"
begin

section \<open>The Consul key-value mapper of \<^verbatim>\<open>internal/consul/kv.go\<close>\<close>

text \<open>
  \<^verbatim>\<open>ListMap\<close> turns the flat entries of the key-value store into a nested
  \<^verbatim>\<open>map[string]interface{}\<close>; \<^verbatim>\<open>PutMap\<close> writes a nested map back, one
  \<^verbatim>\<open>Put\<close> per string leaf. Go strings are byte sequences and are modelled as
  \<^typ>\<open>string\<close>; a \<^verbatim>\<open>[]byte\<close> value converted with \<^verbatim>\<open>string(...)\<close> is the
  same byte sequence.
\<close>

subsection \<open>The functions of package \<^verbatim>\<open>strings\<close> and \<^verbatim>\<open>fmt\<close> that the code calls\<close>

text \<open>\<^verbatim>\<open>len(s) >= len(prefix) && s[:len(prefix)] == prefix\<close>\<close>

definition HasPrefix :: "string \<Rightarrow> string \<Rightarrow> bool" where
  "HasPrefix s pre = (length pre \<le> length s \<and> take (length pre) s = pre)"

text \<open>\<^verbatim>\<open>len(s) >= len(suffix) && s[len(s)-len(suffix):] == suffix\<close>\<close>

definition HasSuffix :: "string \<Rightarrow> string \<Rightarrow> bool" where
  "HasSuffix s suf = (length suf \<le> length s \<and> drop (length s - length suf) s = suf)"

definition TrimPrefix :: "string \<Rightarrow> string \<Rightarrow> string" where
  "TrimPrefix s pre = (if HasPrefix s pre then drop (length pre) s else s)"

text \<open>\<^verbatim>\<open>strings.Trim(s, cutset)\<close> removes every leading and every trailing byte of the cutset.\<close>

definition Trim :: "string \<Rightarrow> string \<Rightarrow> string" where
  "Trim s cutset =
     rev (dropWhile (\<lambda>c. c \<in> set cutset) (rev (dropWhile (\<lambda>c. c \<in> set cutset) s)))"

text \<open>
  \<^verbatim>\<open>strings.Split(s, sep)\<close> for a separator of one byte, which is all the code uses
  (\<^verbatim>\<open>"/"\<close>): the pieces between the separators, so that the empty string gives one
  empty piece and \<open>n\<close> separators give \<open>n + 1\<close> pieces.
\<close>

fun Split :: "string \<Rightarrow> char \<Rightarrow> string list" where
  "Split [] sep = [[]]"
| "Split (c # s) sep =
     (if c = sep then [] # Split s sep
      else (case Split s sep of [] \<Rightarrow> [[c]] | x # xs \<Rightarrow> (c # x) # xs))"

text \<open>\<^verbatim>\<open>fmt.Sprintf("%s/%s", prefix, key)\<close>\<close>

definition Sprintf_path :: "string \<Rightarrow> string \<Rightarrow> string" where
  "Sprintf_path pfx key = pfx @ ''/'' @ key"

subsection \<open>Values, entries and errors\<close>

text \<open>
  The values an \<^verbatim>\<open>interface{}\<close> holds here: a string, a map from strings to values, or
  anything else, for which a number, a boolean and nil stand. A Go map has no order and
  holds every key once: it is a finite map.
\<close>

datatype scalar = SNil | SBool bool | SInt int

datatype val = Str string | Map "(string, val) fmap" | Other scalar

type_synonym gomap = "(string, val) fmap"

text \<open>\<^verbatim>\<open>consulApi.KVPair\<close>, with the two fields the code reads and writes.\<close>

record KVPair =
  Key :: string
  Value :: string

text \<open>
  An error is what the backend returned, or that error wrapped with a message
  (\<^verbatim>\<open>errors.Wrap\<close>). \<open>NilMapPanic\<close> is not a returned error: it is the run-time panic
  \<^verbatim>\<open>assignment to entry in nil map\<close>, which aborts the call.
\<close>

datatype error = Backend string | Wrapped error string | NilMapPanic

subsection \<open>\<^verbatim>\<open>ListMap\<close>\<close>

text \<open>
  The inner loop \<^verbatim>\<open>for i, key := range keys\<close>, from the segment it is at, with the value
  of the entry and the map \<^verbatim>\<open>currentItem\<close> points to (\<open>None\<close> when it is a nil map,
  which is what the failed type assertion \<^verbatim>\<open>item, _ := currentItem[key].(map[string]interface{})\<close>
  leaves). \<open>rest = []\<close> is \<^verbatim>\<open>i == len(keys)-1\<close>. The loop mutates the maps in place;
  the model returns the map \<^verbatim>\<open>currentItem\<close> pointed to as the loop leaves it, and the
  caller stores it back under the key it was found at. On a nil map the lookup
  \<^verbatim>\<open>_, ok := currentItem[key]\<close> gives \<^verbatim>\<open>ok == false\<close>, so both assignments
  (lines 123 and 128) are assignments to an entry of a nil map.
\<close>

fun walk :: "string list \<Rightarrow> string \<Rightarrow> gomap option \<Rightarrow> error + gomap option" where
  "walk [] v currentItem = Inr currentItem"
| "walk (key # rest) v currentItem =
     (if length key = 0 then Inr currentItem
      else if rest = [] then
        (case currentItem of
           None \<Rightarrow> Inl NilMapPanic
         | Some m \<Rightarrow> Inr (Some (fmupd key (Str v) m)))
      else
        (case currentItem of
           None \<Rightarrow> Inl NilMapPanic
         | Some m \<Rightarrow>
             let m1 = (if fmlookup m key = None then fmupd key (Map fmempty) m else m);
                 item = (case fmlookup m1 key of Some (Map c) \<Rightarrow> Some c | _ \<Rightarrow> None)
             in (case walk rest v item of
                   Inl e \<Rightarrow> Inl e
                 | Inr None \<Rightarrow> Inr (Some m1)
                 | Inr (Some c') \<Rightarrow> Inr (Some (fmupd key (Map c') m1)))))"

text \<open>The path of an entry relative to the offset (\<^verbatim>\<open>modEntry\<close>, line 112).\<close>

definition modEntry :: "string \<Rightarrow> KVPair \<Rightarrow> string" where
  "modEntry offset entry = TrimPrefix (Trim (Key entry) '' '') offset"

text \<open>The outer loop \<^verbatim>\<open>for _, entry := range entries\<close> over \<^verbatim>\<open>result\<close>.\<close>

fun ListMap_loop :: "string \<Rightarrow> KVPair list \<Rightarrow> gomap \<Rightarrow> error + gomap" where
  "ListMap_loop offset [] result = Inr result"
| "ListMap_loop offset (entry # entries) result =
     (if length (modEntry offset entry) = 0 then ListMap_loop offset entries result
      else
        (case walk (Split (modEntry offset entry) CHR ''/'') (Value entry) (Some result) of
           Inl e \<Rightarrow> Inl e
         | Inr None \<Rightarrow> ListMap_loop offset entries result
         | Inr (Some result') \<Rightarrow> ListMap_loop offset entries result'))"

text \<open>Lines 105 to 107: the offset gets a trailing separator when it has none.\<close>

definition normalize_offset :: "string \<Rightarrow> string" where
  "normalize_offset offset = (if \<not> HasSuffix offset ''/'' then offset @ ''/'' else offset)"

text \<open>
  \<^verbatim>\<open>ListMap\<close>, with the backend query \<^verbatim>\<open>k.list\<close> as a function from the prefix to
  the entries or an error.
\<close>

definition ListMap :: "(string \<Rightarrow> error + KVPair list) \<Rightarrow> string \<Rightarrow> string \<Rightarrow> error + gomap" where
  "ListMap list pfx offset =
     (case list pfx of
        Inl err \<Rightarrow> Inl (Wrapped err ''could not query Consul for KV values'')
      | Inr entries \<Rightarrow> ListMap_loop (normalize_offset offset) entries fmempty)"

text \<open>A backend whose query succeeds with the given entries, whatever the prefix.\<close>

definition lists :: "KVPair list \<Rightarrow> string \<Rightarrow> error + KVPair list" where
  "lists entries pfx = Inr entries"

definition kv :: "string \<Rightarrow> string \<Rightarrow> KVPair" where
  "kv k v = \<lparr>Key = k, Value = v\<rparr>"

subsection \<open>\<^verbatim>\<open>PutMap\<close> and \<^verbatim>\<open>PutStr\<close>\<close>

text \<open>
  \<^verbatim>\<open>for key, value := range data\<close> visits every key of the map once, in an order the
  language leaves open and that may differ from one run to the next. A run of \<^verbatim>\<open>PutMap\<close>
  is therefore modelled on the map as that run traverses it: every map is given by the
  list of its fields in the order \<^verbatim>\<open>range\<close> yields them. \<open>val_of\<close> forgets the
  order and gives the Go value; \<open>ranged\<close> says that every map lists each key once.
\<close>

datatype data = DStr string | DMap "(string \<times> data) list" | DOther scalar

primrec val_of :: "data \<Rightarrow> val" where
  "val_of (DStr s) = Str s"
| "val_of (DMap fs) = Map (fmap_of_list (map (map_prod id val_of) fs))"
| "val_of (DOther x) = Other x"

fun ranged :: "data \<Rightarrow> bool" where
  "ranged (DStr s) = True"
| "ranged (DMap fs) = (distinct (map fst fs) \<and> (\<forall>f \<in> set fs. ranged (snd f)))"
| "ranged (DOther x) = True"

text \<open>
  Modelled from the spec: \<^verbatim>\<open>mapstructure.Decode(value, &mapInterface)\<close>, a library
  function that is not among the sources, called on a freshly made map and with its error
  dropped, as the caller drops it. The spec: "any non-string structured value is first
  decomposed into a nested mapping of primitives (field-by-field)". A map or a struct is
  decomposed into its fields; for any other value the decoder reports an error or does
  nothing, and either way the map stays empty.
\<close>

fun Decode :: "data \<Rightarrow> (string \<times> data) list" where
  "Decode (DMap fs) = fs"
| "Decode (DStr s) = []"
| "Decode (DOther x) = []"

text \<open>
  The backend write \<^verbatim>\<open>k.put\<close>: from the pair and the state of the store to the error
  it returns, if any, and the state it leaves.
\<close>

type_synonym 's put = "KVPair \<Rightarrow> 's \<Rightarrow> error option \<times> 's"

definition PutStr :: "'s put \<Rightarrow> string \<Rightarrow> string \<Rightarrow> 's \<Rightarrow> error option \<times> 's" where
  "PutStr put pfx value s =
     (case put \<lparr>Key = pfx, Value = value\<rparr> s of
        (Some err, s') \<Rightarrow> (Some (Wrapped err ''Error storing a new value in the KV storage''), s')
      | (None, s') \<Rightarrow> (None, s'))"

function PutMap :: "'s put \<Rightarrow> string \<Rightarrow> (string \<times> data) list \<Rightarrow> 's \<Rightarrow> error option \<times> 's" where
  "PutMap put pfx [] s = (None, s)"
| "PutMap put pfx ((key, value) # rest) s =
     (case value of
        DStr c \<Rightarrow>
          (case PutStr put (Sprintf_path pfx key) c s of
             (Some err, s') \<Rightarrow> (Some err, s')
           | (None, s') \<Rightarrow> PutMap put pfx rest s')
      | _ \<Rightarrow>
          (case PutMap put (Sprintf_path pfx key) (Decode value) s of
             (Some err, s') \<Rightarrow> (Some err, s')
           | (None, s') \<Rightarrow> PutMap put pfx rest s'))"
  by pat_completeness auto
termination
  by (relation "measure (\<lambda>(put, pfx, fs, s). size_list (size_prod (\<lambda>_. 0) size) fs)") auto

text \<open>
  A backend that never fails and keeps the pairs it was given, in order: what \<^verbatim>\<open>PutMap\<close>
  leaves in it is the sequence of writes of a run.
\<close>

definition record_put :: "KVPair list put" where
  "record_put p log = (None, log @ [p])"

definition writes :: "string \<Rightarrow> (string \<times> data) list \<Rightarrow> KVPair list" where
  "writes pfx fs = snd (PutMap record_put pfx fs [])"

text \<open>The state after a sequence of backend writes that all succeed; \<open>None\<close> if one fails.\<close>

fun put_all :: "'s put \<Rightarrow> KVPair list \<Rightarrow> 's \<Rightarrow> 's option" where
  "put_all put [] s = Some s"
| "put_all put (p # ps) s =
     (case put p s of (None, s') \<Rightarrow> put_all put ps s' | (Some err, s') \<Rightarrow> None)"

text \<open>
  The same sequence of writes issued one \<^verbatim>\<open>PutStr\<close> after the other, stopping at the
  first that returns an error: what \<^verbatim>\<open>PutMap\<close> is shown to do to any backend.
\<close>

fun run_puts :: "'s put \<Rightarrow> KVPair list \<Rightarrow> 's \<Rightarrow> error option \<times> 's" where
  "run_puts put [] s = (None, s)"
| "run_puts put (p # ps) s =
     (case PutStr put (Key p) (Value p) s of
        (Some err, s') \<Rightarrow> (Some err, s')
      | (None, s') \<Rightarrow> run_puts put ps s')"

text \<open>
  A backend that keeps the pairs it was given and refuses the key \<open>bad\<close>, leaving the
  store as it was.
\<close>

definition put_unless :: "string \<Rightarrow> KVPair list put" where
  "put_unless bad p log =
     (if Key p = bad then (Some (Backend ''unavailable''), log) else (None, log @ [p]))"

subsection \<open>Paths in a value\<close>

text \<open>The value found by following a list of keys down the nested maps.\<close>

fun lookup_path :: "val \<Rightarrow> string list \<Rightarrow> val option" where
  "lookup_path v [] = Some v"
| "lookup_path (Map m) (k # ks) =
     (case fmlookup m k of None \<Rightarrow> None | Some c \<Rightarrow> lookup_path c ks)"
| "lookup_path (Str s) (k # ks) = None"
| "lookup_path (Other x) (k # ks) = None"

text \<open>The string leaf of a map at a path, if there is one.\<close>

definition leaf_at :: "gomap \<Rightarrow> string list \<Rightarrow> string option" where
  "leaf_at m p = (case lookup_path (Map m) p of Some (Str v) \<Rightarrow> Some v | _ \<Rightarrow> None)"

text \<open>
  The value stored at a path that is not a map: the string leaf, or whatever else sits there.
\<close>

definition stored_at :: "gomap \<Rightarrow> string list \<Rightarrow> val option" where
  "stored_at m p = (case lookup_path (Map m) p of Some (Map c) \<Rightarrow> None | r \<Rightarrow> r)"


text \<open>The paths of the string leaves of a map.\<close>

definition leaf_paths :: "gomap \<Rightarrow> string list set" where
  "leaf_paths m = {p. leaf_at m p \<noteq> None}"

text \<open>The segments of an entry's path relative to the offset, as \<^verbatim>\<open>ListMap\<close> splits it.\<close>

definition segments :: "string \<Rightarrow> KVPair \<Rightarrow> string list" where
  "segments offset entry = Split (modEntry (normalize_offset offset) entry) CHR ''/''"

subsection \<open>Trees that the flat store can hold\<close>

text \<open>A key that is one path segment: not empty and without the separator.\<close>

definition plain_key :: "string \<Rightarrow> bool" where
  "plain_key k = (k \<noteq> [] \<and> CHR ''/'' \<notin> set k)"

text \<open>
  The trees of strings and maps that survive the way through the store: every map but the
  outermost has a field, keys are path segments, listed once, and the key of a string leaf
  does not end with a space (the key of an entry is trimmed of its spaces when read back).
\<close>

fun storable :: "data \<Rightarrow> bool" where
  "storable (DStr s) = True"
| "storable (DMap fs) =
     (fs \<noteq> [] \<and> distinct (map fst fs) \<and>
      (\<forall>f \<in> set fs. plain_key (fst f)
         \<and> (case snd f of DStr c \<Rightarrow> last (fst f) \<noteq> CHR '' '' | _ \<Rightarrow> True)
         \<and> storable (snd f)))"
| "storable (DOther x) = False"

text \<open>
  The string leaves of a map with their paths as lists of keys, in the order of the run.
\<close>

fun leaves :: "(string \<times> data) list \<Rightarrow> (string list \<times> string) list" where
  "leaves [] = []"
| "leaves ((k, DStr c) # rest) = ([k], c) # leaves rest"
| "leaves ((k, DMap fs) # rest) = map (\<lambda>(p, c). (k # p, c)) (leaves fs) @ leaves rest"
| "leaves ((k, DOther x) # rest) = leaves rest"

text \<open>The keys of a path joined by the separator.\<close>

fun join :: "string list \<Rightarrow> string" where
  "join [] = []"
| "join [k] = k"
| "join (k # k' # ks) = k @ ''/'' @ join (k' # ks)"

text \<open>The descents of \<^verbatim>\<open>ListMap\<close> for a list of split paths with their values.\<close>

fun walks :: "(string list \<times> string) list \<Rightarrow> gomap \<Rightarrow> error + gomap" where
  "walks [] m = Inr m"
| "walks ((p, c) # ls) m =
     (case walk p c (Some m) of
        Inl e \<Rightarrow> Inl e
      | Inr None \<Rightarrow> walks ls m
      | Inr (Some m') \<Rightarrow> walks ls m')"

text \<open>The Go map that a list of fields enumerates.\<close>

definition fields_val :: "(string \<times> data) list \<Rightarrow> gomap" where
  "fields_val fs = fmap_of_list (map (map_prod id val_of) fs)"

section \<open>Theorems\<close>

subsection \<open>The writes of \<^verbatim>\<open>PutMap\<close>\<close>

lemma PutStr_record_put:
  "PutStr record_put k c log = (None, log @ [\<lparr>Key = k, Value = c\<rparr>])"
  by (simp add: PutStr_def record_put_def)

lemma PutMap_record_put_ex:
  "put = record_put \<Longrightarrow> \<exists>ws. \<forall>log. PutMap put pfx fs log = (None, log @ ws)"
proof (induction put pfx fs "s :: KVPair list" rule: PutMap.induct)
  case (1 put pfx s)
  then show ?case by simp
next
  case (2 put pfx key "value" rest s)
  note put = \<open>put = record_put\<close>
  show ?case
  proof (cases "value")
    case (DStr c)
    have "\<exists>ws. \<forall>log. PutMap put pfx rest log = (None, log @ ws)"
      by (rule "2.IH"(1)[OF DStr _ _ put, of None "s @ [\<lparr>Key = Sprintf_path pfx key, Value = c\<rparr>]"])
         (simp_all add: PutStr_record_put put)
    then obtain ws where ws: "\<And>log. PutMap put pfx rest log = (None, log @ ws)"
      by blast
    have "\<forall>log. PutMap put pfx ((key, value) # rest) log
            = (None, log @ (\<lparr>Key = Sprintf_path pfx key, Value = c\<rparr> # ws))"
      using DStr by (simp add: PutStr_record_put[folded put] ws)
    then show ?thesis by blast
  next
    case (DMap fs)
    from "2.IH"(2)[OF DMap put]
    obtain ws1 where ws1: "\<And>log. PutMap put (Sprintf_path pfx key) (Decode value) log = (None, log @ ws1)"
      by auto
    have "\<exists>ws. \<forall>log. PutMap put pfx rest log = (None, log @ ws)"
      by (rule "2.IH"(3)[OF DMap _ _ put, of None "s @ ws1"]) (simp_all add: ws1)
    then obtain ws where ws: "\<And>log. PutMap put pfx rest log = (None, log @ ws)"
      by blast
    have "\<forall>log. PutMap put pfx ((key, value) # rest) log = (None, log @ (ws1 @ ws))"
      using DMap ws1 by (simp add: ws)
    then show ?thesis by blast
  next
    case (DOther x)
    from "2.IH"(4)[OF DOther put]
    obtain ws1 where ws1: "\<And>log. PutMap put (Sprintf_path pfx key) (Decode value) log = (None, log @ ws1)"
      by auto
    have "\<exists>ws. \<forall>log. PutMap put pfx rest log = (None, log @ ws)"
      by (rule "2.IH"(5)[OF DOther _ _ put, of None "s @ ws1"]) (simp_all add: ws1)
    then obtain ws where ws: "\<And>log. PutMap put pfx rest log = (None, log @ ws)"
      by blast
    have "\<forall>log. PutMap put pfx ((key, value) # rest) log = (None, log @ (ws1 @ ws))"
      using DOther ws1 by (simp add: ws)
    then show ?thesis by blast
  qed
qed

lemma PutMap_record_put:
  "PutMap record_put pfx fs log = (None, log @ writes pfx fs)"
proof -
  obtain ws where ws: "\<And>log. PutMap record_put pfx fs log = (None, log @ ws)"
    using PutMap_record_put_ex[OF refl] by blast
  then show ?thesis by (simp add: writes_def)
qed

lemma writes_Nil [simp]: "writes pfx [] = []"
  by (simp add: writes_def)

lemma writes_DStr [simp]:
  "writes pfx ((key, DStr c) # rest) = \<lparr>Key = Sprintf_path pfx key, Value = c\<rparr> # writes pfx rest"
  unfolding writes_def by (simp add: PutStr_record_put PutMap_record_put)

lemma writes_DMap [simp]:
  "writes pfx ((key, DMap fs) # rest) = writes (Sprintf_path pfx key) fs @ writes pfx rest"
  unfolding writes_def by (simp add: PutMap_record_put)

lemma writes_DOther [simp]:
  "writes pfx ((key, DOther x) # rest) = writes pfx rest"
  unfolding writes_def by (simp add: PutMap_record_put)

lemma run_puts_append:
  "run_puts put (ps @ qs) s =
     (case run_puts put ps s of (Some err, s') \<Rightarrow> (Some err, s') | (None, s') \<Rightarrow> run_puts put qs s')"
  by (induction ps arbitrary: s) (auto split: prod.splits option.splits)

lemma PutMap_run_puts: "PutMap put pfx fs s = run_puts put (writes pfx fs) s"
proof (induction put pfx fs s rule: PutMap.induct)
  case (1 put pfx s)
  then show ?case by simp
next
  case (2 put pfx key "value" rest s)
  show ?case
  proof (cases "value")
    case (DStr c)
    then show ?thesis using "2.IH"(1)[OF DStr]
      by (auto split: prod.splits option.splits)
  next
    case (DMap fs)
    then show ?thesis using "2.IH"(2,3)[OF DMap]
      by (auto simp: run_puts_append split: prod.splits option.splits)
  next
    case (DOther x)
    then show ?thesis using "2.IH"(4,5)[OF DOther]
      by (auto simp: run_puts_append split: prod.splits option.splits)
  qed
qed

lemma KVPair_eta [simp]: "\<lparr>Key = Key a, Value = Value a\<rparr> = (a::KVPair)"
  by simp

lemma run_puts_fail:
  "put_all put pre s = Some s1 \<Longrightarrow> put w s1 = (Some e, s2) \<Longrightarrow>
   run_puts put (pre @ w # post) s = (Some (Wrapped e ''Error storing a new value in the KV storage''), s2)"
  by (induction pre arbitrary: s) (auto simp: PutStr_def split: prod.splits option.splits)

lemma run_puts_ok:
  "put_all put ps s = Some s' \<Longrightarrow> run_puts put ps s = (None, s')"
  by (induction ps arbitrary: s) (auto simp: PutStr_def split: prod.splits option.splits)

lemma writes_append: "writes pfx (fs1 @ fs2) = writes pfx fs1 @ writes pfx fs2"
proof (induction fs1)
  case Nil
  then show ?case by simp
next
  case (Cons f fs1)
  obtain key v where f: "f = (key, v)" by (cases f)
  show ?case using Cons f by (cases v) simp_all
qed

lemma writes_concat: "writes pfx fs = concat (map (\<lambda>f. writes pfx [f]) fs)"
proof (induction fs)
  case Nil
  then show ?case by simp
next
  case (Cons f fs)
  have "writes pfx (f # fs) = writes pfx [f] @ writes pfx fs"
    using writes_append[of pfx "[f]" fs] by simp
  then show ?case using Cons by simp
qed

lemma sum_list_distinct_keys:
  fixes h :: "'k \<times> 'v \<Rightarrow> 'm :: comm_monoid_add"
  assumes "distinct (map fst fs)"
  shows "sum_list (map h fs) = (\<Sum>k \<in> fst ` set fs. h (k, the (map_of fs k)))"
  using assms
proof (induction fs)
  case Nil
  then show ?case by simp
next
  case (Cons f fs)
  obtain k v where f: "f = (k, v)" by (cases f)
  from Cons.prems f have k: "k \<notin> fst ` set fs" and d: "distinct (map fst fs)" by auto
  have "(\<Sum>k' \<in> fst ` set fs. h (k', the (map_of (f # fs) k')))
        = (\<Sum>k' \<in> fst ` set fs. h (k', the (map_of fs k')))"
    by (rule sum.cong) (use k f in auto)
  then show ?case using Cons.IH[OF d] k f by simp
qed

lemma mset_writes_sum:
  assumes "distinct (map fst fs)"
  shows "mset (writes pfx fs) = (\<Sum>k \<in> fst ` set fs. mset (writes pfx [(k, the (map_of fs k))]))"
proof -
  have "mset (writes pfx fs) = sum_list (map (\<lambda>f. mset (writes pfx [f])) fs)"
    by (subst writes_concat) (simp add: mset_concat comp_def)
  then show ?thesis using sum_list_distinct_keys[OF assms, of "\<lambda>f. mset (writes pfx [f])"] by simp
qed

lemma map_of_val_of:
  "map_of (map (map_prod id val_of) fs) k = map_option val_of (map_of fs k)"
  by (induction fs) auto

lemma val_of_DMap_eq:
  assumes "val_of (DMap fs1) = val_of (DMap fs2)"
  shows "map_option val_of (map_of fs1 k) = map_option val_of (map_of fs2 k)"
proof -
  from assms
  have "fmlookup (fmap_of_list (map (map_prod id val_of) fs1)) k
        = fmlookup (fmap_of_list (map (map_prod id val_of) fs2)) k" by simp
  then show ?thesis by (simp add: fmlookup_of_list map_of_val_of)
qed

lemma writes_mset_fields:
  assumes dist: "distinct (map fst fs1)" "distinct (map fst fs2)"
    and eq: "\<And>k. map_option val_of (map_of fs1 k) = map_option val_of (map_of fs2 k)"
    and field: "\<And>k v1 v2. (k, v1) \<in> set fs1 \<Longrightarrow> (k, v2) \<in> set fs2 \<Longrightarrow> val_of v1 = val_of v2
                  \<Longrightarrow> mset (writes p [(k, v1)]) = mset (writes p [(k, v2)])"
  shows "mset (writes p fs1) = mset (writes p fs2)"
proof -
  have dom: "fst ` set fs1 = fst ` set fs2"
  proof -
    have "(map_of fs1 k = None) = (map_of fs2 k = None)" for k
      using eq[of k] by (cases "map_of fs1 k"; cases "map_of fs2 k") simp_all
    then have "dom (map_of fs1) = dom (map_of fs2)"
      by (simp add: dom_def)
    then show ?thesis by (simp add: dom_map_of_conv_image_fst)
  qed
  have "mset (writes p [(k, the (map_of fs1 k))]) = mset (writes p [(k, the (map_of fs2 k))])"
    if k: "k \<in> fst ` set fs1" for k
  proof -
    from k dist(1) obtain v1 where v1: "map_of fs1 k = Some v1" "(k, v1) \<in> set fs1"
      by (metis (no_types, opaque_lifting) imageE map_of_eq_Some_iff prod.collapse)
    from k dom dist(2) obtain v2 where v2: "map_of fs2 k = Some v2" "(k, v2) \<in> set fs2"
      by (metis (no_types, opaque_lifting) imageE map_of_eq_Some_iff prod.collapse)
    from eq[of k] v1 v2 have e: "val_of v1 = val_of v2" by simp
    show ?thesis using field[OF v1(2) v2(2) e] v1(1) v2(1) by simp
  qed
  then show ?thesis
    unfolding mset_writes_sum[OF dist(1)] mset_writes_sum[OF dist(2)] dom[symmetric]
    by (intro sum.cong) simp_all
qed

lemma writes_mset_field:
  "ranged d1 \<Longrightarrow> ranged d2 \<Longrightarrow> val_of d1 = val_of d2 \<Longrightarrow>
   mset (writes pfx [(key, d1)]) = mset (writes pfx [(key, d2)])"
proof (induction d1 arbitrary: d2 pfx key)
  case (DStr c)
  then show ?case by (cases d2) simp_all
next
  case (DOther x)
  then show ?case by (cases d2) simp_all
next
  case (DMap fs1)
  from DMap.prems(3) obtain fs2 where d2: "d2 = DMap fs2" by (cases d2) simp_all
  from DMap.prems d2 have dist: "distinct (map fst fs1)" "distinct (map fst fs2)" by simp_all
  let ?p = "Sprintf_path pfx key"
  have "mset (writes ?p fs1) = mset (writes ?p fs2)"
  proof (rule writes_mset_fields[OF dist])
    show "map_option val_of (map_of fs1 k) = map_option val_of (map_of fs2 k)" for k
      using DMap.prems(3) d2 by (intro val_of_DMap_eq) simp
  next
    fix k v1 v2
    assume v: "(k, v1) \<in> set fs1" "(k, v2) \<in> set fs2" and e: "val_of v1 = val_of v2"
    from v(1) DMap.prems(1) have r1: "ranged v1" by auto
    from v(2) DMap.prems(2) d2 have r2: "ranged v2" by auto
    show "mset (writes ?p [(k, v1)]) = mset (writes ?p [(k, v2)])"
      by (rule DMap.IH[of "(k, v1)" v1, OF v(1) _ r1 r2 e]) simp
  qed
  then show ?case using d2 by simp
qed

lemma writes_mset_map:
  assumes "ranged (DMap fs1)" "ranged (DMap fs2)" "val_of (DMap fs1) = val_of (DMap fs2)"
  shows "mset (writes pfx fs1) = mset (writes pfx fs2)"
proof (rule writes_mset_fields)
  show "distinct (map fst fs1)" "distinct (map fst fs2)" using assms by simp_all
  show "map_option val_of (map_of fs1 k) = map_option val_of (map_of fs2 k)" for k
    by (rule val_of_DMap_eq[OF assms(3)])
next
  fix k v1 v2
  assume v: "(k, v1) \<in> set fs1" "(k, v2) \<in> set fs2" and e: "val_of v1 = val_of v2"
  from v(1) assms(1) have r1: "ranged v1" by auto
  from v(2) assms(2) have r2: "ranged v2" by auto
  show "mset (writes pfx [(k, v1)]) = mset (writes pfx [(k, v2)])"
    by (rule writes_mset_field[OF r1 r2 e])
qed

subsection \<open>The descent of \<^verbatim>\<open>ListMap\<close>\<close>

lemma walk_Some_result:
  "walk ks v (Some m) = Inr r \<Longrightarrow> \<exists>m'. r = Some m'"
  by (cases ks) (auto simp: Let_def split: if_splits sum.splits option.splits val.splits)

lemma walk_None:
  "walk ks v None = (if ks = [] \<or> hd ks = [] then Inr None else Inl NilMapPanic)"
  by (cases ks) auto

lemma stored_at_Nil [simp]: "stored_at m [] = None"
  by (simp add: stored_at_def)

lemma stored_at_Cons:
  "stored_at m (k # ks) =
     (case fmlookup m k of
        None \<Rightarrow> None
      | Some (Map c) \<Rightarrow> stored_at c ks
      | Some x \<Rightarrow> (if ks = [] then Some x else None))"
  by (cases ks) (auto simp: stored_at_def split: option.splits val.splits)

lemma stored_at_empty [simp]: "stored_at fmempty p = None"
  by (cases p) (simp_all add: stored_at_Cons)

lemma leaf_at_stored_at:
  "leaf_at m p = (case stored_at m p of Some (Str v) \<Rightarrow> Some v | _ \<Rightarrow> None)"
  by (auto simp: leaf_at_def stored_at_def split: option.splits val.splits)

lemma walk_stored_at:
  "walk q v (Some m) = Inr (Some m') \<Longrightarrow> q \<noteq> [] \<Longrightarrow>
   stored_at m' p =
     (if [] \<in> set q then stored_at m p
      else if p = q then Some (Str v)
      else if strict_prefix q p then None
      else stored_at m p)"
proof (induction q arbitrary: m m' p)
  case Nil
  then show ?case by simp
next
  case (Cons key rest)
  show ?case
  proof (cases "key = []")
    case True
    with Cons.prems show ?thesis by simp
  next
    case key: False
    show ?thesis
    proof (cases "rest = []")
      case True
      with key Cons.prems have m': "m' = fmupd key (Str v) m" by simp
      show ?thesis
        using True key
        by (cases p) (auto simp: m' stored_at_Cons strict_prefix_def split: option.splits val.splits)
    next
      case rest: False
      define m1 where "m1 = (if fmlookup m key = None then fmupd key (Map fmempty) m else m)"
      define item where "item = (case fmlookup m1 key of Some (Map c) \<Rightarrow> Some c | _ \<Rightarrow> None)"
      have "walk (key # rest) v (Some m) = (case walk rest v item of
                   Inl e \<Rightarrow> Inl e
                 | Inr None \<Rightarrow> Inr (Some m1)
                 | Inr (Some c') \<Rightarrow> Inr (Some (fmupd key (Map c') m1)))"
        unfolding m1_def item_def using key rest by (simp add: Let_def)
      with Cons.prems(1)
      have w: "(case walk rest v item of
                   Inl e \<Rightarrow> Inl e
                 | Inr None \<Rightarrow> Inr (Some m1)
                 | Inr (Some c') \<Rightarrow> Inr (Some (fmupd key (Map c') m1))) = Inr (Some m')"
        by simp
      show ?thesis
      proof (cases item)
        case None
        with w rest have e: "hd rest = []" and m': "m' = m1"
          by (auto simp: walk_None split: if_splits)
        from None have "fmlookup m key \<noteq> None"
          by (auto simp: item_def m1_def split: if_splits)
        then have "m1 = m" by (auto simp: m1_def)
        moreover from e rest have "[] \<in> set rest" by (cases rest) auto
        ultimately show ?thesis using m' by simp
      next
        case (Some c)
        from w Some obtain c' where c': "walk rest v (Some c) = Inr (Some c')"
          and m': "m' = fmupd key (Map c') m1"
          by (auto split: sum.splits option.splits dest: walk_Some_result)
        note IH = Cons.IH[OF c' rest]
        have look: "fmlookup m1 key = Some (Map c)"
          using Some by (auto simp: item_def split: option.splits val.splits)
        have old: "stored_at m (key # ks) = stored_at c ks" for ks
          using look by (auto simp: m1_def stored_at_Cons split: if_splits)
        have other: "k \<noteq> key \<Longrightarrow> stored_at m' (k # ks) = stored_at m (k # ks)" for k ks
          by (auto simp: m' m1_def stored_at_Cons)
        have same: "stored_at m' (key # ks) = stored_at c' ks" for ks
          by (simp add: m' stored_at_Cons)
        show ?thesis
        proof (cases p)
          case Nil
          then show ?thesis by simp
        next
          case (Cons k ks)
          show ?thesis
          proof (cases "k = key")
            case True
            then show ?thesis using key
              by (simp add: Cons same IH[of ks] old)
          next
            case False
            then show ?thesis using key
              by (auto simp add: Cons other)
          qed
        qed
      qed
    qed
  qed
qed

lemma walk_no_panic:
  "q \<noteq> [] \<Longrightarrow> [] \<notin> set q \<Longrightarrow>
   (\<And>r. r \<noteq> [] \<Longrightarrow> strict_prefix r q \<Longrightarrow> stored_at m r = None) \<Longrightarrow>
   \<exists>m'. walk q v (Some m) = Inr (Some m')"
proof (induction q arbitrary: m)
  case Nil
  then show ?case by simp
next
  case (Cons key rest)
  from Cons.prems have key: "key \<noteq> []" by auto
  show ?case
  proof (cases "rest = []")
    case True
    then show ?thesis using key by simp
  next
    case rest: False
    define m1 where "m1 = (if fmlookup m key = None then fmupd key (Map fmempty) m else m)"
    have "stored_at m [key] = None"
      using Cons.prems(3)[of "[key]"] rest by (cases rest) auto
    then obtain c where look: "fmlookup m1 key = Some (Map c)"
      and c: "\<And>ks. stored_at c ks = stored_at m (key # ks)"
      by (cases "fmlookup m key") (auto simp: m1_def stored_at_Cons split: val.splits)
    have "\<exists>c'. walk rest v (Some c) = Inr (Some c')"
    proof (rule Cons.IH[OF rest])
      show "[] \<notin> set rest" using Cons.prems by simp
      fix r assume "r \<noteq> []" "strict_prefix r rest"
      then show "stored_at c r = None"
        using Cons.prems(3)[of "key # r"] by (simp add: c)
    qed
    then obtain c' where "walk rest v (Some c) = Inr (Some c')" by blast
    then show ?thesis using key rest look
      by (simp add: Let_def m1_def[symmetric])
  qed
qed

subsection \<open>The loop over the entries\<close>

lemma ListMap_loop_append:
  "ListMap_loop off (es1 @ es2) m =
     (case ListMap_loop off es1 m of Inl e \<Rightarrow> Inl e | Inr m' \<Rightarrow> ListMap_loop off es2 m')"
  by (induction es1 arbitrary: m) (auto split: sum.splits option.splits)

lemma ListMap_loop_skip:
  "modEntry off e = [] \<Longrightarrow> ListMap_loop off (es1 @ e # es2) m = ListMap_loop off (es1 @ es2) m"
  by (simp add: ListMap_loop_append split: sum.splits)

lemma dropWhile_hd: "s \<noteq> [] \<Longrightarrow> \<not> P (hd s) \<Longrightarrow> dropWhile P s = s"
  by (cases s) auto

lemma HasSuffix_slash: "HasSuffix s ''/'' \<longleftrightarrow> s \<noteq> [] \<and> last s = CHR ''/''"
proof (cases s rule: rev_cases)
  case Nil
  then show ?thesis by (simp add: HasSuffix_def)
next
  case (snoc ys y)
  then show ?thesis by (auto simp: HasSuffix_def)
qed

lemma HasPrefix_space: "HasPrefix s '' '' \<longleftrightarrow> s \<noteq> [] \<and> hd s = CHR '' ''"
  by (cases s) (auto simp: HasPrefix_def)

lemma Trim_id:
  "s \<noteq> [] \<Longrightarrow> hd s \<noteq> CHR '' '' \<Longrightarrow> last s \<noteq> CHR '' '' \<Longrightarrow> Trim s '' '' = s"
  by (simp add: Trim_def dropWhile_hd hd_rev)

lemma TrimPrefix_self [simp]: "TrimPrefix s s = []"
  by (simp add: TrimPrefix_def HasPrefix_def)

lemma normalize_offset_props:
  "normalize_offset offset \<noteq> []" "last (normalize_offset offset) = CHR ''/''"
  "\<not> HasPrefix offset '' '' \<Longrightarrow> hd (normalize_offset offset) \<noteq> CHR '' ''"
  by (auto simp: normalize_offset_def HasSuffix_slash HasPrefix_space hd_append)

subsection \<open>Empty segments\<close>



lemma lookup_path_empty: "p \<noteq> [] \<Longrightarrow> lookup_path (Map fmempty) p = None"
  by (cases p) simp_all

lemma lookup_path_Str: "p \<noteq> [] \<Longrightarrow> lookup_path (Str s) p = None"
  by (cases p) simp_all







subsection \<open>Leaves and collisions\<close>

lemma Split_not_Nil [simp]: "Split s c \<noteq> []"
  by (induction s) (auto split: list.splits)

lemma Split_Nil_mem: "s = [] \<Longrightarrow> [] \<in> set (Split s c)"
  by simp

lemma ListMap_loop_leaves:
  assumes "\<forall>e\<in>set es. [] \<notin> set (Split (modEntry off e) CHR ''/'')"
    and "distinct (map (\<lambda>e. Split (modEntry off e) CHR ''/'') (ds @ es))"
    and "\<forall>e\<in>set (ds @ es). \<forall>e'\<in>set (ds @ es). \<not> strict_prefix (Split (modEntry off e) CHR ''/'') (Split (modEntry off e') CHR ''/'')"
    and "\<forall>p. stored_at m p = map_option Str (map_of (map (\<lambda>e. (Split (modEntry off e) CHR ''/'', Value e)) ds) p)"
  shows "\<exists>t. ListMap_loop off es m = Inr t \<and>
           (\<forall>p. stored_at t p = map_option Str (map_of (map (\<lambda>e. (Split (modEntry off e) CHR ''/'', Value e)) (ds @ es)) p))"
  using assms
proof (induction es arbitrary: ds m)
  case Nil
  then show ?case by simp
next
  case (Cons e es)
  let ?pv = "\<lambda>xs. map (\<lambda>e. (Split (modEntry off e) CHR ''/'', Value e)) xs"
  let ?q = "Split (modEntry off e) CHR ''/''"
  have ne: "modEntry off e \<noteq> []"
    using Cons.prems(1) by auto
  have q: "?q \<noteq> []" "[] \<notin> set ?q" using Cons.prems(1) by simp_all
  have fresh: "map_of (?pv ds) p = None" if "prefix ?q p" for p
  proof (rule ccontr)
    assume "map_of (?pv ds) p \<noteq> None"
    then obtain v where "map_of (?pv ds) p = Some v" by auto
    then have "(p, v) \<in> set (?pv ds)" by (rule map_of_SomeD)
    then obtain d where d: "d \<in> set ds" "Split (modEntry off d) CHR ''/'' = p" by auto
    show False
    proof (cases "p = ?q")
      case True
      with d Cons.prems(2) show False by (auto simp: image_iff)
    next
      case False
      with that have "strict_prefix ?q (Split (modEntry off d) CHR ''/'')" using d by (simp add: strict_prefix_def)
      with Cons.prems(3) d show False by auto
    qed
  qed
  have clear: "stored_at m r = None" if "r \<noteq> []" "strict_prefix r ?q" for r
  proof (rule ccontr)
    assume "stored_at m r \<noteq> None"
    with Cons.prems(4) obtain v where "map_of (?pv ds) r = Some v" by auto
    then have "(r, v) \<in> set (?pv ds)" by (rule map_of_SomeD)
    then obtain d where d: "d \<in> set ds" "Split (modEntry off d) CHR ''/'' = r" by auto
    with that Cons.prems(3) show False by auto
  qed
  from walk_no_panic[OF q clear] obtain m' where
    w: "walk ?q (Value e) (Some m) = Inr (Some m')" by blast
  have inv: "\<forall>p. stored_at m' p = map_option Str (map_of (?pv (ds @ [e])) p)"
  proof
    fix p
    show "stored_at m' p = map_option Str (map_of (?pv (ds @ [e])) p)"
      using walk_stored_at[OF w q(1), of p] q(2) Cons.prems(4) fresh[of p]
      by (auto simp: map_add_def strict_prefix_def split: option.splits)
  qed
  have "\<exists>t. ListMap_loop off es m' = Inr t \<and>
           (\<forall>p. stored_at t p = map_option Str (map_of (?pv ((ds @ [e]) @ es)) p))"
    by (rule Cons.IH[OF _ _ _ inv]) (use Cons.prems in auto)
  then show ?case using ne w by simp
qed


lemma leaf_at_Some_iff:
  "leaf_at t p = Some v \<longleftrightarrow> stored_at t p = Some (Str v)"
  by (auto simp: leaf_at_stored_at split: option.splits val.splits)





subsection \<open>From the writes of \<^verbatim>\<open>PutMap\<close> back to the map\<close>

lemma join_Cons: "p \<noteq> [] \<Longrightarrow> join (k # p) = k @ ''/'' @ join p"
  by (cases p) simp_all

lemma leaves_path_nonempty: "(p, c) \<in> set (leaves fs) \<Longrightarrow> p \<noteq> []"
  by (induction fs arbitrary: p c rule: leaves.induct) auto

lemma writes_leaves:
  "writes pfx fs = map (\<lambda>(p, c). \<lparr>Key = pfx @ ''/'' @ join p, Value = c\<rparr>) (leaves fs)"
proof (induction fs arbitrary: pfx rule: leaves.induct)
  case 1
  then show ?case by simp
next
  case (2 k c rest)
  then show ?case by (simp add: Sprintf_path_def)
next
  case (3 k fs rest)
  have "map (\<lambda>(p, c). \<lparr>Key = (pfx @ ''/'' @ k) @ ''/'' @ join p, Value = c\<rparr>) (leaves fs)
        = map ((\<lambda>(p, c). \<lparr>Key = pfx @ ''/'' @ join p, Value = c\<rparr>) \<circ> (\<lambda>(p, c). (k # p, c))) (leaves fs)"
    by (rule map_cong) (auto simp: join_Cons dest: leaves_path_nonempty)
  then show ?case using 3 by (simp add: Sprintf_path_def)
next
  case (4 k x rest)
  then show ?case by simp
qed

lemma Split_no_sep: "c \<notin> set k \<Longrightarrow> Split k c = [k]"
  by (induction k) auto

lemma Split_append_sep: "c \<notin> set k \<Longrightarrow> Split (k @ c # s) c = k # Split s c"
  by (induction k) auto

lemma Split_join:
  "ks \<noteq> [] \<Longrightarrow> \<forall>k\<in>set ks. CHR ''/'' \<notin> set k \<Longrightarrow> Split (join ks) CHR ''/'' = ks"
  by (induction ks rule: join.induct) (auto simp: Split_no_sep Split_append_sep)

lemma join_nonempty: "ks \<noteq> [] \<Longrightarrow> \<forall>k\<in>set ks. k \<noteq> [] \<Longrightarrow> join ks \<noteq> []"
  by (induction ks rule: join.induct) auto

lemma last_join: "ks \<noteq> [] \<Longrightarrow> \<forall>k\<in>set ks. k \<noteq> [] \<Longrightarrow> last (join ks) = last (last ks)"
  by (induction ks rule: join.induct) (auto simp: join_nonempty)

lemma leaves_props:
  "fs = [] \<or> storable (DMap fs) \<Longrightarrow> (p, c) \<in> set (leaves fs) \<Longrightarrow>
   (\<forall>k\<in>set p. plain_key k) \<and> last (last p) \<noteq> CHR '' ''"
proof (induction fs arbitrary: p c rule: leaves.induct)
  case 1
  then show ?case by simp
next
  case (2 k c' rest)
  from "2.prems"(1) have r: "rest = [] \<or> storable (DMap rest)" by auto
  from "2.prems" "2.IH"[OF r] show ?case by auto
next
  case (3 k fs rest)
  from "3.prems"(1) have r: "rest = [] \<or> storable (DMap rest)" and f: "storable (DMap fs)"
    and k: "plain_key k" by auto
  from "3.prems"(2) consider q where "p = k # q" "(q, c) \<in> set (leaves fs)" | "(p, c) \<in> set (leaves rest)"
    by auto
  then show ?case
  proof cases
    case 1
    with "3.IH"(1)[of q c] f k leaves_path_nonempty[of q c fs] show ?thesis by auto
  next
    case 2
    with "3.IH"(2)[OF r] show ?thesis by blast
  qed
next
  case (4 k x rest)
  then show ?case by auto
qed


lemma TrimPrefix_append [simp]: "TrimPrefix (pre @ s) pre = s"
  by (simp add: TrimPrefix_def HasPrefix_def)

lemma entry_segments:
  assumes "\<not> HasSuffix pfx ''/''" "\<not> HasPrefix pfx '' ''"
    and p: "p \<noteq> []" "\<forall>k\<in>set p. plain_key k" "last (last p) \<noteq> CHR '' ''"
  shows "modEntry (normalize_offset pfx) \<lparr>Key = pfx @ ''/'' @ join p, Value = c\<rparr> = join p"
    and "join p \<noteq> []"
    and "Split (join p) CHR ''/'' = p"
proof -
  from p have ne: "\<forall>k\<in>set p. k \<noteq> []" and ns: "\<forall>k\<in>set p. CHR ''/'' \<notin> set k"
    by (auto simp: plain_key_def)
  show j: "join p \<noteq> []" by (rule join_nonempty[OF p(1) ne])
  show "Split (join p) CHR ''/'' = p" by (rule Split_join[OF p(1) ns])
  have "hd (pfx @ ''/'' @ join p) \<noteq> CHR '' ''"
    using assms(2) by (cases pfx) (auto simp: HasPrefix_space)
  moreover have "last (pfx @ ''/'' @ join p) \<noteq> CHR '' ''"
    using j p(3) last_join[OF p(1) ne] by simp
  ultimately have "Trim (pfx @ ''/'' @ join p) '' '' = pfx @ ''/'' @ join p"
    by (intro Trim_id) simp_all
  moreover have "normalize_offset pfx = pfx @ ''/''"
    using assms(1) by (simp add: normalize_offset_def)
  ultimately show "modEntry (normalize_offset pfx) \<lparr>Key = pfx @ ''/'' @ join p, Value = c\<rparr> = join p"
    using TrimPrefix_append[of "pfx @ ''/''" "join p"] by (simp add: modEntry_def)
qed

lemma ListMap_loop_walks:
  assumes "\<not> HasSuffix pfx ''/''" "\<not> HasPrefix pfx '' ''"
    and "\<forall>(p, c)\<in>set ls. p \<noteq> [] \<and> (\<forall>k\<in>set p. plain_key k) \<and> last (last p) \<noteq> CHR '' ''"
  shows "ListMap_loop (normalize_offset pfx)
           (map (\<lambda>(p, c). \<lparr>Key = pfx @ ''/'' @ join p, Value = c\<rparr>) ls) m = walks ls m"
  using assms(3)
proof (induction ls arbitrary: m)
  case Nil
  then show ?case by simp
next
  case (Cons l ls)
  obtain p c where l: "l = (p, c)" by (cases l)
  from Cons.prems l have p: "p \<noteq> []" "\<forall>k\<in>set p. plain_key k" "last (last p) \<noteq> CHR '' ''"
    by auto
  note e = entry_segments(1)[OF assms(1,2) p, of c, simplified] entry_segments(2,3)[OF assms(1,2) p]
  show ?case using Cons l by (simp add: e split: sum.splits option.splits)
qed

lemma walks_append:
  "walks (ls1 @ ls2) m = (case walks ls1 m of Inl e \<Rightarrow> Inl e | Inr m' \<Rightarrow> walks ls2 m')"
  by (induction ls1 arbitrary: m) (auto split: sum.splits option.splits)

lemma walk_descend:
  assumes "k \<noteq> []" "p \<noteq> []"
    and "fmlookup m k = Some (Map c0) \<or> fmlookup m k = None \<and> c0 = fmempty"
  shows "walk (k # p) c (Some m) =
           (case walk p c (Some c0) of Inl e \<Rightarrow> Inl e
            | Inr None \<Rightarrow> Inr (Some m)
            | Inr (Some c') \<Rightarrow> Inr (Some (fmupd k (Map c') m)))"
  using assms by (auto simp: Let_def split: sum.splits option.splits dest: walk_Some_result)

lemma walks_descend:
  assumes "k \<noteq> []" "\<forall>(p, c)\<in>set (l # ls). p \<noteq> []"
    and "fmlookup m k = Some (Map c0) \<or> fmlookup m k = None \<and> c0 = fmempty"
  shows "walks (map (\<lambda>(p, c). (k # p, c)) (l # ls)) m =
           (case walks (l # ls) c0 of Inl e \<Rightarrow> Inl e | Inr c' \<Rightarrow> Inr (fmupd k (Map c') m))"
  using assms(2,3)
proof (induction ls arbitrary: l m c0)
  case Nil
  obtain p c where l: "l = (p, c)" by (cases l)
  with Nil have p: "p \<noteq> []" by simp
  show ?case
    using walk_descend[OF assms(1) p Nil(2), of c] l
    by (auto split: sum.splits option.splits dest: walk_Some_result)
next
  case (Cons l' ls)
  obtain p c where l: "l = (p, c)" by (cases l)
  with Cons.prems have p: "p \<noteq> []" by simp
  note d = walk_descend[OF assms(1) p Cons.prems(2), of c]
  show ?case
  proof (cases "walk p c (Some c0)")
    case (Inl e)
    then show ?thesis using d l by simp
  next
    case (Inr r)
    then obtain c1 where r: "r = Some c1" by (auto dest: walk_Some_result)
    have "walks (map (\<lambda>(p, c). (k # p, c)) (l' # ls)) (fmupd k (Map c1) m) =
           (case walks (l' # ls) c1 of Inl e \<Rightarrow> Inl e
            | Inr c' \<Rightarrow> Inr (fmupd k (Map c') (fmupd k (Map c1) m)))"
      by (rule Cons.IH) (use Cons.prems in auto)
    then show ?thesis using d l Inr r by (simp split: sum.splits)
  qed
qed


lemma leaves_nonempty: "storable (DMap fs) \<Longrightarrow> leaves fs \<noteq> []"
  by (induction fs rule: leaves.induct) auto

lemma fields_val_simps [simp]:
  "fields_val [] = fmempty"
  "fields_val ((k, v) # fs) = fmupd k (val_of v) (fields_val fs)"
  by (simp_all add: fields_val_def)

lemma val_of_DMap: "val_of (DMap fs) = Map (fields_val fs)"
  by (simp add: fields_val_def)

lemma fmlookup_fields_val_None:
  "k \<notin> fst ` set fs \<Longrightarrow> fmlookup (fields_val fs) k = None"
  by (simp add: fields_val_def fmlookup_of_list map_of_val_of map_of_eq_None_iff)

lemma fmadd_fmupd_swap:
  "fmlookup n k = None \<Longrightarrow> fmupd k v m ++\<^sub>f n = m ++\<^sub>f fmupd k v n"
  by (rule fmap_ext) (auto simp: fmlookup_dom_iff)

lemma walks_leaves:
  "fs = [] \<or> storable (DMap fs) \<Longrightarrow> \<forall>k\<in>fst ` set fs. fmlookup m k = None \<Longrightarrow>
   walks (leaves fs) m = Inr (m ++\<^sub>f fields_val fs)"
proof (induction fs arbitrary: m rule: leaves.induct)
  case 1
  then show ?case by simp
next
  case (2 k c rest)
  from "2.prems"(1) have r: "rest = [] \<or> storable (DMap rest)"
    and k: "k \<noteq> []" "k \<notin> fst ` set rest"
    by (auto simp: plain_key_def)
  have "walks (leaves rest) (fmupd k (Str c) m) = Inr (fmupd k (Str c) m ++\<^sub>f fields_val rest)"
    by (rule "2.IH"[OF r]) (use "2.prems"(2) k in auto)
  also have "fmupd k (Str c) m ++\<^sub>f fields_val rest = m ++\<^sub>f fields_val ((k, DStr c) # rest)"
    using fmadd_fmupd_swap[OF fmlookup_fields_val_None[OF k(2)]] by simp
  finally show ?case
    using k by simp
next
  case (3 k fs rest)
  from "3.prems"(1) have r: "rest = [] \<or> storable (DMap rest)" and f: "storable (DMap fs)"
    and k: "k \<noteq> []" "k \<notin> fst ` set rest"
    by (auto simp: plain_key_def)
  from leaves_nonempty[OF f] obtain l ls where ls: "leaves fs = l # ls"
    by (cases "leaves fs") auto
  have inner: "walks (leaves fs) fmempty = Inr (fields_val fs)"
    using "3.IH"(1)[of fmempty] f by simp
  have "walks (map (\<lambda>(p, c). (k # p, c)) (l # ls)) m =
           (case walks (l # ls) fmempty of Inl e \<Rightarrow> Inl e | Inr c' \<Rightarrow> Inr (fmupd k (Map c') m))"
  proof (rule walks_descend[OF k(1)])
    show "\<forall>(p, c)\<in>set (l # ls). p \<noteq> []"
      using leaves_path_nonempty[of _ _ fs] by (auto simp: ls)
    show "fmlookup m k = Some (Map fmempty) \<or> fmlookup m k = None \<and> fmempty = fmempty"
      using "3.prems"(2) by simp
  qed
  then have first: "walks (map (\<lambda>(p, c). (k # p, c)) (leaves fs)) m
        = Inr (fmupd k (Map (fields_val fs)) m)"
    using inner by (simp add: ls)
  have "walks (leaves rest) (fmupd k (Map (fields_val fs)) m)
        = Inr (fmupd k (Map (fields_val fs)) m ++\<^sub>f fields_val rest)"
    by (rule "3.IH"(2)[OF r]) (use "3.prems"(2) k in auto)
  also have "fmupd k (Map (fields_val fs)) m ++\<^sub>f fields_val rest
             = m ++\<^sub>f fields_val ((k, DMap fs) # rest)"
    using fmadd_fmupd_swap[OF fmlookup_fields_val_None[OF k(2)]]
    by (simp add: val_of_DMap del: val_of.simps)
  finally show ?case
    using first by (simp add: walks_append del: fields_val_simps)
next
  case (4 k x rest)
  then show ?case by auto
qed



lemma normalize_offset_slash: "normalize_offset (offset @ ''/'') = offset @ ''/''"
  by (simp add: normalize_offset_def HasSuffix_def)

subsection \<open>The claims\<close>

text \<open>
  C2. \<^verbatim>\<open>ListMap\<close> is to return a tree for every list of entries, also when one entry's
  path is a proper prefix of another's. The code does not: with the entries \<open>p/a\<close> and
  \<open>p/a/b\<close>, in the order the store lists them, the second entry finds the string stored
  under \<open>a\<close>, the type assertion (whose \<^verbatim>\<open>ok\<close> is discarded) leaves a nil map, and the
  assignment under \<open>b\<close> panics.
\<close>

theorem ListMap_prefix_entry_panics:
  "ListMap (lists [kv ''p/a'' ''x'', kv ''p/a/b'' ''y'']) ''p'' ''p'' = Inl NilMapPanic"
  by (simp add: ListMap_def lists_def kv_def normalize_offset_def modEntry_def
      HasSuffix_def HasPrefix_def TrimPrefix_def Trim_def)

text \<open>
  C7. An offset without a trailing separator gives the same tree as that offset with the
  separator appended: \<open>a/b\<close> and \<open>a/b/\<close> are interchangeable.
\<close>

theorem ListMap_offset_normalization:
  "\<not> HasSuffix offset ''/'' \<Longrightarrow> ListMap list pfx offset = ListMap list pfx (offset @ ''/'')"
proof -
  assume "\<not> HasSuffix offset ''/''"
  then have n: "normalize_offset offset = normalize_offset (offset @ ''/'')"
    by (simp add: normalize_offset_slash) (simp add: normalize_offset_def)
  show ?thesis
    unfolding ListMap_def n by (rule refl)
qed

theorem ListMap_offset_normalization_witness:
  "\<not> HasSuffix ''a/b'' ''/'' \<and>
   ListMap (lists [kv ''a/b/c/d'' ''1'', kv ''a/b/e'' ''2'']) ''a'' ''a/b''
   = ListMap (lists [kv ''a/b/c/d'' ''1'', kv ''a/b/e'' ''2'']) ''a'' ''a/b/'' \<and>
   ListMap (lists [kv ''a/b/c/d'' ''1'', kv ''a/b/e'' ''2'']) ''a'' ''a/b''
   = Inr (fmap_of_list [(''c'', Map (fmap_of_list [(''d'', Str ''1'')])), (''e'', Str ''2'')])"
proof -
  have h: "\<not> HasSuffix ''a/b'' ''/''" by (simp add: HasSuffix_def)
  have "ListMap (lists [kv ''a/b/c/d'' ''1'', kv ''a/b/e'' ''2'']) ''a'' ''a/b''
   = Inr (fmap_of_list [(''c'', Map (fmap_of_list [(''d'', Str ''1'')])), (''e'', Str ''2'')])"
    by code_simp
  with h ListMap_offset_normalization[OF h, of "lists [kv ''a/b/c/d'' ''1'', kv ''a/b/e'' ''2'']" "''a''"]
  show ?thesis by simp
qed

text \<open>
  C6. When a backend write fails in the middle of \<^verbatim>\<open>PutMap\<close>, the call returns that
  error (wrapped by \<^verbatim>\<open>PutStr\<close>) at once: with the writes of the run split into those
  before the failing one, which all succeed, the failing one and the rest, the store is
  left as the failing write left it, on top of all the earlier writes; nothing is undone
  and nothing of the rest is written. When every write succeeds, \<^verbatim>\<open>PutMap\<close> returns
  nil and the store holds all the writes.
\<close>

theorem PutMap_no_rollback:
  "(writes pfx fs = pre @ w # post \<and> put_all put pre s = Some s1 \<and> put w s1 = (Some e, s2)
      \<longrightarrow> PutMap put pfx fs s = (Some (Wrapped e ''Error storing a new value in the KV storage''), s2))
   \<and> (put_all put (writes pfx fs) s = Some s' \<longrightarrow> PutMap put pfx fs s = (None, s'))"
  by (simp add: PutMap_run_puts run_puts_fail run_puts_ok)

theorem PutMap_no_rollback_witness:
  "writes ''p'' [(''a'', DStr ''1''), (''b'', DMap [(''c'', DStr ''2''), (''d'', DStr ''3'')]), (''e'', DStr ''4'')]
     = [kv ''p/a'' ''1'', kv ''p/b/c'' ''2''] @ kv ''p/b/d'' ''3'' # [kv ''p/e'' ''4'']
   \<and> put_all (put_unless ''p/b/d'') [kv ''p/a'' ''1'', kv ''p/b/c'' ''2''] [] = Some [kv ''p/a'' ''1'', kv ''p/b/c'' ''2'']
   \<and> put_unless ''p/b/d'' (kv ''p/b/d'' ''3'') [kv ''p/a'' ''1'', kv ''p/b/c'' ''2'']
       = (Some (Backend ''unavailable''), [kv ''p/a'' ''1'', kv ''p/b/c'' ''2''])
   \<and> PutMap (put_unless ''p/b/d'') ''p''
         [(''a'', DStr ''1''), (''b'', DMap [(''c'', DStr ''2''), (''d'', DStr ''3'')]), (''e'', DStr ''4'')] []
       = (Some (Wrapped (Backend ''unavailable'') ''Error storing a new value in the KV storage''),
          [kv ''p/a'' ''1'', kv ''p/b/c'' ''2''])
   \<and> put_all (put_unless ''q'') (writes ''p'' [(''a'', DStr ''1''), (''e'', DStr ''4'')]) []
       = Some [kv ''p/a'' ''1'', kv ''p/e'' ''4'']
   \<and> PutMap (put_unless ''q'') ''p'' [(''a'', DStr ''1''), (''e'', DStr ''4'')] []
       = (None, [kv ''p/a'' ''1'', kv ''p/e'' ''4''])"
proof -
  let ?fs = "[(''a'', DStr ''1''), (''b'', DMap [(''c'', DStr ''2''), (''d'', DStr ''3'')]), (''e'', DStr ''4'')]"
  let ?pre = "[kv ''p/a'' ''1'', kv ''p/b/c'' ''2'']"
  have w: "writes ''p'' ?fs = ?pre @ kv ''p/b/d'' ''3'' # [kv ''p/e'' ''4'']"
    by (simp add: kv_def Sprintf_path_def)
  have p: "put_all (put_unless ''p/b/d'') ?pre [] = Some ?pre"
    by (simp add: kv_def put_unless_def)
  have f: "put_unless ''p/b/d'' (kv ''p/b/d'' ''3'') ?pre = (Some (Backend ''unavailable''), ?pre)"
    by (simp add: kv_def put_unless_def)
  have a: "put_all (put_unless ''q'') (writes ''p'' [(''a'', DStr ''1''), (''e'', DStr ''4'')]) []
       = Some [kv ''p/a'' ''1'', kv ''p/e'' ''4'']"
    by (simp add: kv_def put_unless_def Sprintf_path_def)
  from PutMap_no_rollback[of "''p''" ?fs ?pre "kv ''p/b/d'' ''3''" "[kv ''p/e'' ''4'']"
        "put_unless ''p/b/d''" "[]" ?pre "Backend ''unavailable''" ?pre] w p f
  have 1: "PutMap (put_unless ''p/b/d'') ''p'' ?fs []
       = (Some (Wrapped (Backend ''unavailable'') ''Error storing a new value in the KV storage''), ?pre)"
    by blast
  from PutMap_no_rollback[of "''p''" "[(''a'', DStr ''1''), (''e'', DStr ''4'')]" _ _ _
        "put_unless ''q''" "[]" _ _ _ "[kv ''p/a'' ''1'', kv ''p/e'' ''4'']"] a
  have 2: "PutMap (put_unless ''q'') ''p'' [(''a'', DStr ''1''), (''e'', DStr ''4'')] []
       = (None, [kv ''p/a'' ''1'', kv ''p/e'' ''4''])"
    by blast
  from w p f a 1 2 show ?thesis by blast
qed

text \<open>
  C9, as stated: two runs of \<^verbatim>\<open>PutMap\<close> on the same tree issue the same sequence of
  writes. They need not: \<^verbatim>\<open>range\<close> may yield the keys \<open>a\<close> and \<open>b\<close> of one and
  the same map in either order, and the two runs then write in different orders.
\<close>

theorem PutMap_order_counterexample:
  "ranged (DMap [(''a'', DStr ''1''), (''b'', DStr ''2'')])
   \<and> ranged (DMap [(''b'', DStr ''2''), (''a'', DStr ''1'')])
   \<and> val_of (DMap [(''a'', DStr ''1''), (''b'', DStr ''2'')])
       = val_of (DMap [(''b'', DStr ''2''), (''a'', DStr ''1'')])
   \<and> writes ''p'' [(''a'', DStr ''1''), (''b'', DStr ''2'')] = [kv ''p/a'' ''1'', kv ''p/b'' ''2'']
   \<and> writes ''p'' [(''b'', DStr ''2''), (''a'', DStr ''1'')] = [kv ''p/b'' ''2'', kv ''p/a'' ''1'']
   \<and> writes ''p'' [(''a'', DStr ''1''), (''b'', DStr ''2'')]
       \<noteq> writes ''p'' [(''b'', DStr ''2''), (''a'', DStr ''1'')]"
proof -
  have "fmupd ''a'' (Str ''1'') (fmupd ''b'' (Str ''2'') fmempty)
        = fmupd ''b'' (Str ''2'') (fmupd ''a'' (Str ''1'') fmempty)"
    by (rule fmap_ext) auto
  then show ?thesis
    by (simp add: kv_def Sprintf_path_def)
qed

text \<open>
  C9, amended. \<^verbatim>\<open>PutMap\<close> walks the map depth first: a string field is one write
  under its path, a map field contributes the writes of its own fields, all of them before
  the next field's, and a run over no fields writes nothing; so the writes of a run are its
  string leaves in the order visited, one write each, with the keys of the path joined to
  the prefix. Two runs on the same map (each visiting every key once, in whatever order)
  issue the same writes as a multiset: only the order may differ.
\<close>

theorem PutMap_writes_depth_first:
  "writes pfx [] = []
   \<and> writes pfx ((key, DStr c) # rest) = \<lparr>Key = Sprintf_path pfx key, Value = c\<rparr> # writes pfx rest
   \<and> writes pfx ((key, DMap fs) # rest) = writes (Sprintf_path pfx key) fs @ writes pfx rest
   \<and> writes pfx fs = map (\<lambda>(p, c). \<lparr>Key = pfx @ ''/'' @ join p, Value = c\<rparr>) (leaves fs)
   \<and> (ranged (DMap fs1) \<and> ranged (DMap fs2) \<and> val_of (DMap fs1) = val_of (DMap fs2)
        \<longrightarrow> mset (writes pfx fs1) = mset (writes pfx fs2))"
  using writes_leaves[of pfx fs] by (simp add: writes_mset_map)

theorem PutMap_writes_depth_first_witness:
  "ranged (DMap [(''a'', DStr ''1''), (''b'', DMap [(''c'', DStr ''2''), (''d'', DStr ''3'')])])
   \<and> ranged (DMap [(''b'', DMap [(''d'', DStr ''3''), (''c'', DStr ''2'')]), (''a'', DStr ''1'')])
   \<and> val_of (DMap [(''a'', DStr ''1''), (''b'', DMap [(''c'', DStr ''2''), (''d'', DStr ''3'')])])
       = val_of (DMap [(''b'', DMap [(''d'', DStr ''3''), (''c'', DStr ''2'')]), (''a'', DStr ''1'')])
   \<and> mset (writes ''p'' [(''a'', DStr ''1''), (''b'', DMap [(''c'', DStr ''2''), (''d'', DStr ''3'')])])
       = mset (writes ''p'' [(''b'', DMap [(''d'', DStr ''3''), (''c'', DStr ''2'')]), (''a'', DStr ''1'')])"
proof -
  let ?fs1 = "[(''a'', DStr ''1''), (''b'', DMap [(''c'', DStr ''2''), (''d'', DStr ''3'')])]"
  let ?fs2 = "[(''b'', DMap [(''d'', DStr ''3''), (''c'', DStr ''2'')]), (''a'', DStr ''1'')]"
  have r: "ranged (DMap ?fs1)" "ranged (DMap ?fs2)" by simp_all
  have i: "fmupd ''c'' (Str ''2'') (fmupd ''d'' (Str ''3'') fmempty)
           = fmupd ''d'' (Str ''3'') (fmupd ''c'' (Str ''2'') fmempty)"
    by (rule fmap_ext) auto
  have v: "val_of (DMap ?fs1) = val_of (DMap ?fs2)"
    by (simp add: i) (rule fmap_ext, auto)
  from PutMap_writes_depth_first[of "''p''" _ _ _ _ ?fs1 ?fs2] r v
  show ?thesis by blast
qed

text \<open>
  C10. A field whose value is neither a string nor decomposable into fields (a number, a
  boolean, nil) causes no backend write and no error: a run over that field alone leaves the
  store untouched and returns nil, and among other fields the run is the run without it.
\<close>

theorem PutMap_drops_undecodable:
  "PutMap put pfx [(key, DOther x)] s = (None, s) \<and>
   PutMap put pfx (fs1 @ (key, DOther x) # fs2) s = PutMap put pfx (fs1 @ fs2) s"
  by (simp add: PutMap_run_puts writes_append)

text \<open>
  C8, as stated: an entry whose path equals the normalized offset adds nothing. With the
  offset \<open>" a"\<close> (a leading space) it does: the key \<open>" a/"\<close> is the normalized offset,
  but the key is trimmed of its spaces before the offset is stripped and the offset is not,
  so the offset no longer matches, the remainder is \<open>a/\<close> and the tree gets an empty map
  under \<open>a\<close>.
\<close>

theorem ListMap_offset_entry_counterexample:
  "Key (kv '' a/'' ''x'') = normalize_offset '' a''
   \<and> ListMap (lists [kv '' a/'' ''x'']) ''p'' '' a'' = Inr (fmupd ''a'' (Map fmempty) fmempty)
   \<and> ListMap (lists []) ''p'' '' a'' = Inr fmempty
   \<and> ListMap (lists [kv '' a/'' ''x'']) ''p'' '' a'' \<noteq> ListMap (lists []) ''p'' '' a''"
proof -
  have n: "normalize_offset '' a'' = '' a/''"
    by (simp add: normalize_offset_def HasSuffix_def)
  have 1: "ListMap (lists [kv '' a/'' ''x'']) ''p'' '' a'' = Inr (fmupd ''a'' (Map fmempty) fmempty)"
    by (simp add: ListMap_def lists_def kv_def n modEntry_def Trim_def TrimPrefix_def HasPrefix_def)
  have 2: "ListMap (lists []) ''p'' '' a'' = Inr fmempty"
    by (simp add: ListMap_def lists_def)
  have "fmupd ''a'' (Map fmempty) fmempty \<noteq> fmempty"
    by (metis fmupd_lookup fmempty_lookup option.distinct(1))
  with 1 2 n show ?thesis by (simp add: kv_def)
qed


text \<open>
  C8, amended. An entry whose path equals the normalized offset exactly adds nothing when
  the offset does not begin with a space; in general, an entry adds nothing when its path
  with the leading and trailing spaces removed equals the normalized offset. The tree is
  then the tree of the list without that entry.
\<close>

theorem ListMap_skips_offset_entry:
  "(Trim (Key e) '' '' = normalize_offset offset
      \<or> Key e = normalize_offset offset \<and> \<not> HasPrefix offset '' '')
   \<longrightarrow> ListMap (lists (es1 @ e # es2)) pfx offset = ListMap (lists (es1 @ es2)) pfx offset"
proof -
  have "modEntry (normalize_offset offset) e = []"
    if "Trim (Key e) '' '' = normalize_offset offset
      \<or> Key e = normalize_offset offset \<and> \<not> HasPrefix offset '' ''"
    using that by (auto simp: modEntry_def Trim_id normalize_offset_props)
  then show ?thesis
    by (auto simp: ListMap_def lists_def ListMap_loop_skip)
qed


theorem ListMap_skips_offset_entry_witness:
  "(Trim (Key (kv ''a/b/'' ''x'')) '' '' = normalize_offset ''a/b''
      \<or> Key (kv ''a/b/'' ''x'') = normalize_offset ''a/b'' \<and> \<not> HasPrefix ''a/b'' '' '')
   \<and> ListMap (lists ([kv ''a/b/c'' ''1''] @ kv ''a/b/'' ''x'' # [kv ''a/b/d'' ''2''])) ''a'' ''a/b''
       = ListMap (lists ([kv ''a/b/c'' ''1''] @ [kv ''a/b/d'' ''2''])) ''a'' ''a/b''
   \<and> ListMap (lists ([kv ''a/b/c'' ''1''] @ [kv ''a/b/d'' ''2''])) ''a'' ''a/b''
       = Inr (fmap_of_list [(''c'', Str ''1''), (''d'', Str ''2'')])"
proof -
  have h: "Key (kv ''a/b/'' ''x'') = normalize_offset ''a/b'' \<and> \<not> HasPrefix ''a/b'' '' ''"
    by (simp add: kv_def normalize_offset_def HasSuffix_def HasPrefix_def)
  have r: "ListMap (lists ([kv ''a/b/c'' ''1''] @ [kv ''a/b/d'' ''2''])) ''a'' ''a/b''
       = Inr (fmap_of_list [(''c'', Str ''1''), (''d'', Str ''2'')])"
    by code_simp
  from ListMap_skips_offset_entry[of "kv ''a/b/'' ''x''" "''a/b''" "[kv ''a/b/c'' ''1'']"
         "[kv ''a/b/d'' ''2'']" "''a''"] h r
  show ?thesis by blast
qed



text \<open>
  C3, as stated: entries with pairwise distinct paths, no empty segment and a non-empty
  remainder give a tree with one string leaf each. With the entries \<open>p/a/b\<close> and
  \<open>p/a\<close>, in this order, the second replaces the map under \<open>a\<close> by a string: the tree
  has one leaf, and none at the path of the first entry.
\<close>

theorem ListMap_leaf_count_counterexample:
  "Key (kv ''p/a/b'' ''y'') \<noteq> Key (kv ''p/a'' ''x'')
   \<and> segments ''p'' (kv ''p/a/b'' ''y'') = [''a'', ''b'']
   \<and> segments ''p'' (kv ''p/a'' ''x'') = [''a'']
   \<and> ListMap (lists [kv ''p/a/b'' ''y'', kv ''p/a'' ''x'']) ''p'' ''p''
       = Inr (fmupd ''a'' (Str ''x'') fmempty)
   \<and> leaf_at (fmupd ''a'' (Str ''x'') fmempty) [''a'', ''b''] = None
   \<and> card (leaf_paths (fmupd ''a'' (Str ''x'') fmempty)) = 1
   \<and> length [kv ''p/a/b'' ''y'', kv ''p/a'' ''x''] = 2"
proof -
  have s: "segments ''p'' (kv ''p/a/b'' ''y'') = [''a'', ''b'']"
      "segments ''p'' (kv ''p/a'' ''x'') = [''a'']"
    by (simp_all add: segments_def kv_def normalize_offset_def modEntry_def
        HasSuffix_def HasPrefix_def TrimPrefix_def Trim_def)
  have r: "ListMap (lists [kv ''p/a/b'' ''y'', kv ''p/a'' ''x'']) ''p'' ''p''
       = Inr (fmupd ''a'' (Str ''x'') fmempty)"
    by (simp add: ListMap_def lists_def kv_def normalize_offset_def modEntry_def
        HasSuffix_def HasPrefix_def TrimPrefix_def Trim_def)
  have "leaf_at (fmupd ''a'' (Str ''x'') fmempty) p \<noteq> None \<longleftrightarrow> p = [''a'']" for p
    by (cases p) (auto simp: leaf_at_stored_at stored_at_Cons)
  then have "leaf_paths (fmupd ''a'' (Str ''x'') fmempty) = {[''a'']}"
    by (auto simp: leaf_paths_def)
  then have c: "card (leaf_paths (fmupd ''a'' (Str ''x'') fmempty)) = 1" by simp
  have l: "leaf_at (fmupd ''a'' (Str ''x'') fmempty) [''a'', ''b''] = None"
    by (simp add: leaf_at_def)
  from s r c l show ?thesis by (simp add: kv_def)
qed

text \<open>
  C3, amended. When the paths of the entries relative to the offset (trimmed of spaces,
  stripped of the offset and split) have no empty segment, are pairwise distinct, and none
  is a proper prefix of another, \<^verbatim>\<open>ListMap\<close> returns a tree whose string leaves are
  exactly the entries: there is a leaf with value \<open>v\<close> at path \<open>p\<close> if and only if some
  entry has path \<open>p\<close> and value \<open>v\<close>, and the number of leaf paths is the number of
  entries. (A path without empty segment has a non-empty remainder. Every map of the result
  is made by \<^verbatim>\<open>ListMap\<close> and stored under one key, so the result is a tree and a leaf
  is reached by its path only.)
\<close>

theorem ListMap_leaf_per_entry:
  assumes "\<forall>e\<in>set entries. [] \<notin> set (segments offset e)"
    and "distinct (map (segments offset) entries)"
    and "\<forall>e\<in>set entries. \<forall>e'\<in>set entries.
           \<not> strict_prefix (segments offset e) (segments offset e')"
  shows "\<exists>t. ListMap (lists entries) pfx offset = Inr t
           \<and> (\<forall>p v. leaf_at t p = Some v \<longleftrightarrow> (\<exists>e\<in>set entries. segments offset e = p \<and> Value e = v))
           \<and> card (leaf_paths t) = length entries"
proof -
  let ?off = "normalize_offset offset"
  let ?pv = "map (\<lambda>e. (Split (modEntry ?off e) CHR ''/'', Value e)) entries"
  have "\<exists>t. ListMap_loop ?off entries fmempty = Inr t
          \<and> (\<forall>p. stored_at t p = map_option Str (map_of ?pv p))"
    using ListMap_loop_leaves[of entries ?off "[]" fmempty] assms[unfolded segments_def]
    by simp
  then obtain t where t: "ListMap_loop ?off entries fmempty = Inr t"
    and st: "\<And>p. stored_at t p = map_option Str (map_of ?pv p)"
    by auto
  have dist: "distinct (map fst ?pv)"
    using assms(2) by (simp add: comp_def segments_def[abs_def])
  have leaf: "leaf_at t p = Some v \<longleftrightarrow> (\<exists>e\<in>set entries. segments offset e = p \<and> Value e = v)" for p v
  proof -
    have "leaf_at t p = Some v \<longleftrightarrow> map_of ?pv p = Some v"
      by (auto simp: leaf_at_Some_iff st)
    also have "\<dots> \<longleftrightarrow> (p, v) \<in> set ?pv"
      using dist by (rule map_of_eq_Some_iff)
    also have "\<dots> \<longleftrightarrow> (\<exists>e\<in>set entries. segments offset e = p \<and> Value e = v)"
      by (auto simp: segments_def)
    finally show ?thesis .
  qed
  have "leaf_paths t = set (map (segments offset) entries)"
    using leaf by (auto simp: leaf_paths_def)
  then have "card (leaf_paths t) = length entries"
    using distinct_card[OF assms(2)] by simp
  with t leaf show ?thesis
    by (simp add: ListMap_def lists_def)
qed


theorem ListMap_leaf_per_entry_witness:
  "map (segments ''p'') [kv ''p/a/b'' ''1'', kv ''p/a/c'' ''2'', kv ''p/d'' ''3'']
       = [[''a'', ''b''], [''a'', ''c''], [''d'']]
   \<and> distinct (map (segments ''p'') [kv ''p/a/b'' ''1'', kv ''p/a/c'' ''2'', kv ''p/d'' ''3''])
   \<and> ListMap (lists [kv ''p/a/b'' ''1'', kv ''p/a/c'' ''2'', kv ''p/d'' ''3'']) ''q'' ''p''
       = Inr (fmap_of_list [(''a'', Map (fmap_of_list [(''b'', Str ''1''), (''c'', Str ''2'')])),
                            (''d'', Str ''3'')])
   \<and> card (leaf_paths (fmap_of_list [(''a'', Map (fmap_of_list [(''b'', Str ''1''), (''c'', Str ''2'')])),
                            (''d'', Str ''3'')])) = 3"
proof -
  let ?es = "[kv ''p/a/b'' ''1'', kv ''p/a/c'' ''2'', kv ''p/d'' ''3'']"
  have s: "segments ''p'' (kv ''p/a/b'' ''1'') = [''a'', ''b'']"
      "segments ''p'' (kv ''p/a/c'' ''2'') = [''a'', ''c'']"
      "segments ''p'' (kv ''p/d'' ''3'') = [''d'']"
    by (simp_all add: segments_def kv_def normalize_offset_def modEntry_def
        HasSuffix_def HasPrefix_def TrimPrefix_def Trim_def)
  have h1: "\<forall>e\<in>set ?es. [] \<notin> set (segments ''p'' e)" by (simp add: s)
  have h2: "distinct (map (segments ''p'') ?es)" by (simp add: s)
  have h3: "\<forall>e\<in>set ?es. \<forall>e'\<in>set ?es. \<not> strict_prefix (segments ''p'' e) (segments ''p'' e')"
    by (simp add: s)
  have r: "ListMap (lists ?es) ''q'' ''p''
       = Inr (fmap_of_list [(''a'', Map (fmap_of_list [(''b'', Str ''1''), (''c'', Str ''2'')])),
                            (''d'', Str ''3'')])"
    by code_simp
  from ListMap_leaf_per_entry[OF h1 h2 h3, of "''q''"] r
  have "card (leaf_paths (fmap_of_list [(''a'', Map (fmap_of_list [(''b'', Str ''1''), (''c'', Str ''2'')])),
                            (''d'', Str ''3'')])) = 3"
    by auto
  with h2 r s show ?thesis by simp
qed





text \<open>
  C1, as stated: writing any tree with unique leaf paths and no empty segment under a
  prefix and reading the entries back with that prefix as offset gives the tree again. It
  does not for a tree with an empty nested map (nothing is written for it, so it is not
  read back), for a prefix that ends with the separator (every path then starts with an
  empty segment and is dropped), for a prefix that begins with a space (the keys are
  trimmed before the offset is stripped, so the offset no longer matches), or for a leaf
  whose key ends with a space (trimmed away when read back).
\<close>

theorem PutMap_ListMap_roundtrip_counterexample:
  "writes ''p'' [(''a'', DMap [])] = []
   \<and> ListMap (lists (writes ''p'' [(''a'', DMap [])])) ''p'' ''p'' = Inr fmempty
   \<and> val_of (DMap [(''a'', DMap [])]) = Map (fmupd ''a'' (Map fmempty) fmempty)
   \<and> fmupd ''a'' (Map fmempty) fmempty \<noteq> fmempty
   \<and> writes ''p/'' [(''a'', DStr ''1'')] = [kv ''p//a'' ''1'']
   \<and> ListMap (lists (writes ''p/'' [(''a'', DStr ''1'')])) ''p/'' ''p/'' = Inr fmempty
   \<and> val_of (DMap [(''a'', DStr ''1'')]) = Map (fmupd ''a'' (Str ''1'') fmempty)
   \<and> fmupd ''a'' (Str ''1'') fmempty \<noteq> fmempty
   \<and> ListMap (lists (writes '' p'' [(''a'', DStr ''1'')])) '' p'' '' p''
       = Inr (fmupd ''p'' (Map (fmupd ''a'' (Str ''1'') fmempty)) fmempty)
   \<and> fmupd ''p'' (Map (fmupd ''a'' (Str ''1'') fmempty)) fmempty \<noteq> fmupd ''a'' (Str ''1'') fmempty
   \<and> ListMap (lists (writes ''p'' [(''a '', DStr ''1'')])) ''p'' ''p'' = Inr (fmupd ''a'' (Str ''1'') fmempty)
   \<and> val_of (DMap [(''a '', DStr ''1'')]) = Map (fmupd ''a '' (Str ''1'') fmempty)
   \<and> fmupd ''a'' (Str ''1'') fmempty \<noteq> fmupd ''a '' (Str ''1'') fmempty"
proof -
  have n: "fmupd ''a'' x fmempty \<noteq> fmempty" for x :: val
    by (metis fmupd_lookup fmempty_lookup option.distinct(1))
  have "fmlookup (fmupd ''p'' (Map (fmupd ''a'' (Str ''1'') fmempty)) fmempty) ''a''
        \<noteq> fmlookup (fmupd ''a'' (Str ''1'') fmempty) ''a''" by simp
  then have n3: "fmupd ''p'' (Map (fmupd ''a'' (Str ''1'') fmempty)) fmempty \<noteq> fmupd ''a'' (Str ''1'') fmempty"
    by metis
  have "fmlookup (fmupd ''a'' (Str ''1'') fmempty) ''a''
        \<noteq> fmlookup (fmupd ''a '' (Str ''1'') fmempty) ''a''" by simp
  then have n4: "fmupd ''a'' (Str ''1'') fmempty \<noteq> fmupd ''a '' (Str ''1'') fmempty"
    by metis
  have n2: "normalize_offset ''p/'' = ''p/''" "normalize_offset ''p'' = ''p/''"
     "normalize_offset '' p'' = '' p/''"
    by (simp_all add: normalize_offset_def HasSuffix_def)
  show ?thesis
    by (simp add: n n3 n4 kv_def Sprintf_path_def ListMap_def lists_def n2 modEntry_def
        Trim_def TrimPrefix_def HasPrefix_def)
qed


text \<open>
  C1, amended. For a prefix that neither ends with the separator nor begins with a space,
  and a tree of strings and maps whose keys are non-empty and without separator, whose
  nested maps are not empty and whose leaf keys do not end with a space, reading back the
  writes of \<^verbatim>\<open>PutMap\<close> with the prefix as offset gives exactly the tree, in whatever
  order the run visited the keys.
\<close>

theorem PutMap_ListMap_roundtrip:
  assumes "fs = [] \<or> storable (DMap fs)" "\<not> HasSuffix pfx ''/''" "\<not> HasPrefix pfx '' ''"
  shows "\<exists>t. ListMap (lists (writes pfx fs)) lp pfx = Inr t \<and> Map t = val_of (DMap fs)"
proof -
  have "\<forall>(p, c)\<in>set (leaves fs). p \<noteq> [] \<and> (\<forall>k\<in>set p. plain_key k) \<and> last (last p) \<noteq> CHR '' ''"
    using leaves_props[OF assms(1)] leaves_path_nonempty[of _ _ fs] by blast
  from ListMap_loop_walks[OF assms(2,3) this, of fmempty]
  have "ListMap (lists (writes pfx fs)) lp pfx = walks (leaves fs) fmempty"
    by (simp add: ListMap_def lists_def writes_leaves)
  also have "\<dots> = Inr (fields_val fs)"
    using walks_leaves[OF assms(1), of fmempty] by simp
  finally show ?thesis by (simp add: val_of_DMap del: val_of.simps)
qed


theorem PutMap_ListMap_roundtrip_witness:
  "storable (DMap [(''cluster1'', DMap [(''name'', DStr ''c1''),
                     (''nodes'', DMap [(''h1'', DStr ''up''), (''h2'', DStr ''down'')])])])
   \<and> \<not> HasSuffix ''trento/v0/clusters'' ''/'' \<and> \<not> HasPrefix ''trento/v0/clusters'' '' ''
   \<and> writes ''trento/v0/clusters'' [(''cluster1'', DMap [(''name'', DStr ''c1''),
                     (''nodes'', DMap [(''h1'', DStr ''up''), (''h2'', DStr ''down'')])])]
       = [kv ''trento/v0/clusters/cluster1/name'' ''c1'',
          kv ''trento/v0/clusters/cluster1/nodes/h1'' ''up'',
          kv ''trento/v0/clusters/cluster1/nodes/h2'' ''down'']
   \<and> map_sum id Map (ListMap (lists (writes ''trento/v0/clusters'' [(''cluster1'', DMap [(''name'', DStr ''c1''),
                     (''nodes'', DMap [(''h1'', DStr ''up''), (''h2'', DStr ''down'')])])]))
          ''trento/v0/clusters'' ''trento/v0/clusters'')
       = Inr (val_of (DMap [(''cluster1'', DMap [(''name'', DStr ''c1''),
                     (''nodes'', DMap [(''h1'', DStr ''up''), (''h2'', DStr ''down'')])])]))"
proof -
  let ?fs = "[(''cluster1'', DMap [(''name'', DStr ''c1''),
                     (''nodes'', DMap [(''h1'', DStr ''up''), (''h2'', DStr ''down'')])])]"
  have h1: "storable (DMap ?fs)" by (simp add: plain_key_def)
  have h2: "\<not> HasSuffix ''trento/v0/clusters'' ''/''" by (simp add: HasSuffix_def)
  have h3: "\<not> HasPrefix ''trento/v0/clusters'' '' ''" by (simp add: HasPrefix_def)
  have w: "writes ''trento/v0/clusters'' ?fs
       = [kv ''trento/v0/clusters/cluster1/name'' ''c1'',
          kv ''trento/v0/clusters/cluster1/nodes/h1'' ''up'',
          kv ''trento/v0/clusters/cluster1/nodes/h2'' ''down'']"
    by (simp add: kv_def Sprintf_path_def)
  from PutMap_ListMap_roundtrip[OF disjI2[OF h1] h2 h3, of "''trento/v0/clusters''"]
  have "map_sum id Map (ListMap (lists (writes ''trento/v0/clusters'' ?fs))
          ''trento/v0/clusters'' ''trento/v0/clusters'') = Inr (val_of (DMap ?fs))"
    by auto
  with h1 h2 h3 w show ?thesis by blast
qed

end
